theory Spec2Isabelle
  imports
    Complex_Main
    "HOL-Library.AList"
    "HOL-Library.Char_ord"
    "HOL-Library.List_Lexorder"
    "HOL-Library.Product_Lexorder"
    "HOL-Library.Multiset"
begin

section \<open>The lexical index of \<^verbatim>\<open>src/app/vectorstore.py\<close>\<close>

text \<open>
  Modelling conventions.
  \<^item> A Python \<^verbatim>\<open>str\<close> is a \<^typ>\<open>string\<close>; one \<^typ>\<open>char\<close> stands for one code point
    of the Latin-1 range (0 to 255).  Comparison of strings is lexicographic by code
    point, as Python's is.
  \<^item> A Python \<^verbatim>\<open>int\<close> is an \<^typ>\<open>int\<close>.  A Python \<^verbatim>\<open>float\<close> is idealised as a
    \<^typ>\<open>real\<close>: rounding, overflow and the special values of IEEE arithmetic are outside
    the model.  What Python raises on (division by zero, \<^verbatim>\<open>math.log\<close> and
    \<^verbatim>\<open>math.sqrt\<close> outside their domain, a missing dictionary key) is a value of
    \<open>py_error\<close>.
  \<^item> A dictionary that the code iterates over (\<^verbatim>\<open>docs\<close>, \<^verbatim>\<open>doc_tokens\<close>, a term
    counter of one text, a sparse vector) is an association list in insertion order;
    \<^const>\<open>AList.update\<close> is the assignment \<^verbatim>\<open>d[k] = v\<close>: in place for a key that is
    present, at the end for a new one.  A dictionary that is only read by key
    (\<^verbatim>\<open>term_df\<close>, a payload) is a map.
\<close>

datatype py_error = KeyError | ZeroDivisionError | ValueError

subsection \<open>Tokenizer\<close>

text \<open>
  \<^verbatim>\<open>_token_re = re.compile(r"\w+", re.UNICODE)\<close>: a word character is an alphanumeric
  code point or the underscore.  The table below is the one of Unicode restricted to
  code points below 256.
\<close>

definition is_word :: "char \<Rightarrow> bool" where
  "is_word c =
     (let n = (of_char c :: nat) in
        (48 \<le> n \<and> n \<le> 57) \<or> (65 \<le> n \<and> n \<le> 90) \<or> n = 95 \<or> (97 \<le> n \<and> n \<le> 122) \<or>
        n = 170 \<or> n = 178 \<or> n = 179 \<or> n = 181 \<or> n = 185 \<or> n = 186 \<or>
        (188 \<le> n \<and> n \<le> 190) \<or> (192 \<le> n \<and> n \<le> 214) \<or> (216 \<le> n \<and> n \<le> 246) \<or>
        248 \<le> n)"

text \<open>\<^verbatim>\<open>str.lower\<close> on code points below 256.\<close>

definition lower_char :: "char \<Rightarrow> char" where
  "lower_char c =
     (let n = (of_char c :: nat) in
        if (65 \<le> n \<and> n \<le> 90) \<or> (192 \<le> n \<and> n \<le> 214) \<or> (216 \<le> n \<and> n \<le> 222)
        then char_of (n + 32) else c)"

text \<open>
  \<^verbatim>\<open>_token_re.findall(text or "")\<close>: the maximal runs of word characters, left
  to right.  The first argument is the run being read.  (\<^verbatim>\<open>text or ""\<close> reads
  \<^verbatim>\<open>None\<close> as the empty string; the model takes a string.)
\<close>

fun findall :: "string \<Rightarrow> string \<Rightarrow> string list" where
  "findall cur [] = (if cur = [] then [] else [cur])"
| "findall cur (c # cs) =
     (if is_word c then findall (cur @ [c]) cs
      else (if cur = [] then [] else [cur]) @ findall [] cs)"

definition tokenize :: "string \<Rightarrow> string list" where
  "tokenize text = map (map lower_char) (findall [] text)"

subsection \<open>Counters\<close>

type_synonym counter = "(string \<times> int) list"

definition counter_get :: "counter \<Rightarrow> string \<Rightarrow> int" where
  "counter_get c k = (case map_of c k of None \<Rightarrow> 0 | Some v \<Rightarrow> v)"

text \<open>\<^verbatim>\<open>Counter(tokens)\<close>: one pass over the tokens, each adding one to its entry.\<close>

definition Counter :: "string list \<Rightarrow> counter" where
  "Counter tokens = fold (\<lambda>t c. AList.update t (counter_get c t + 1) c) tokens []"

text \<open>
  \<^verbatim>\<open>term_df\<close> is a \<^verbatim>\<open>Counter\<close> too, read and written by key only: a missing key reads
  as 0, both for \<^verbatim>\<open>term_df[term]\<close> and for \<^verbatim>\<open>term_df.get(term, 0)\<close>.
\<close>

definition df_get :: "(string \<rightharpoonup> int) \<Rightarrow> string \<Rightarrow> int" where
  "df_get df k = (case df k of None \<Rightarrow> 0 | Some v \<Rightarrow> v)"

subsection \<open>The index and \<^verbatim>\<open>add\<close>\<close>

type_synonym payload = "string \<rightharpoonup> string"

text \<open>
  \<^verbatim>\<open>docs\<close> maps a document id to \<^verbatim>\<open>{"payload": ...}\<close>; the model stores the payload
  itself, the wrapper having this single key.
\<close>

record kstore =
  docs :: "(string \<times> payload) list"
  term_df :: "string \<rightharpoonup> int"
  doc_tokens :: "(string \<times> counter) list"
  N :: int

definition init :: kstore where
  "init = \<lparr>docs = [], term_df = Map.empty, doc_tokens = [], N = 0\<rparr>"

text \<open>
  The first loop of \<^verbatim>\<open>add\<close>:
  \<^verbatim>\<open>for term in prev_terms: term_df[term] -= 1; if term_df[term] <= 0: del term_df[term]\<close>
\<close>

fun retract :: "(string \<rightharpoonup> int) \<Rightarrow> string list \<Rightarrow> (string \<rightharpoonup> int)" where
  "retract df [] = df"
| "retract df (t # ts) =
     (let df1 = df(t \<mapsto> df_get df t - 1)
      in retract (if df_get df1 t \<le> 0 then df1(t := None) else df1) ts)"

text \<open>The second loop: \<^verbatim>\<open>for term in tf.keys(): term_df[term] += 1\<close>\<close>

fun apply_terms :: "(string \<rightharpoonup> int) \<Rightarrow> string list \<Rightarrow> (string \<rightharpoonup> int)" where
  "apply_terms df [] = df"
| "apply_terms df (t # ts) = apply_terms (df(t \<mapsto> df_get df t + 1)) ts"

definition add :: "kstore \<Rightarrow> string \<Rightarrow> string \<Rightarrow> payload \<Rightarrow> py_error + kstore" where
  "add s doc_id text pl =
     (case (if map_of (docs s) doc_id \<noteq> None
            then (case map_of (doc_tokens s) doc_id of
                    None \<Rightarrow> Inl KeyError
                  | Some prev_terms \<Rightarrow> Inr (retract (term_df s) (map fst prev_terms)))
            else Inr (term_df s)) of
        Inl e \<Rightarrow> Inl e
      | Inr df1 \<Rightarrow>
          (let tokens = tokenize text;
               tf = Counter tokens;
               dt = AList.update doc_id tf (doc_tokens s);
               df2 = apply_terms df1 (map fst tf);
               ds = AList.update doc_id (pl ++ [''text'' \<mapsto> text]) (docs s)
           in Inr \<lparr>docs = ds, term_df = df2, doc_tokens = dt, N = int (length ds)\<rparr>))"

subsection \<open>TF-IDF vectors and cosine similarity\<close>

type_synonym vec = "(string \<times> real) list"

text \<open>\<^verbatim>\<open>a / b\<close> on two ints, and \<^verbatim>\<open>math.log\<close>.\<close>

definition py_truediv :: "int \<Rightarrow> int \<Rightarrow> py_error + real" where
  "py_truediv a b = (if b = 0 then Inl ZeroDivisionError else Inr (real_of_int a / real_of_int b))"

definition py_log :: "real \<Rightarrow> py_error + real" where
  "py_log x = (if x \<le> 0 then Inl ValueError else Inr (ln x))"

definition idf :: "int \<Rightarrow> int \<Rightarrow> py_error + real" where
  "idf n df =
     (case py_truediv (1 + n) (1 + df) of
        Inl e \<Rightarrow> Inl e
      | Inr r \<Rightarrow> (case py_log r of Inl e \<Rightarrow> Inl e | Inr l \<Rightarrow> Inr (l + 1)))"

text \<open>The loop of \<^verbatim>\<open>_tfidf_vec\<close> over \<^verbatim>\<open>tf.items()\<close>, with the vector built so far.\<close>

fun tfidf_loop :: "kstore \<Rightarrow> counter \<Rightarrow> vec \<Rightarrow> py_error + vec" where
  "tfidf_loop s [] v = Inr v"
| "tfidf_loop s ((t, f) # rest) v =
     (let df = df_get (term_df s) t in
        if df = 0 \<or> N s = 0 then tfidf_loop s rest v
        else (case idf (N s) df of
                Inl e \<Rightarrow> Inl e
              | Inr i \<Rightarrow> tfidf_loop s rest (AList.update t (real_of_int f * i) v)))"

definition tfidf_vec :: "kstore \<Rightarrow> counter \<Rightarrow> py_error + vec" where
  "tfidf_vec s tf = tfidf_loop s tf []"

text \<open>
  \<^verbatim>\<open>math.sqrt\<close>, and \<^verbatim>\<open>_cosine\<close>.  Over the reals the test \<^verbatim>\<open>na == 0.0 or nb == 0.0\<close>
  leaves no way to the two errors of the last line.  In double arithmetic it does, for
  entries of extreme magnitude only: the product \<^verbatim>\<open>na * nb\<close> can underflow to 0 past
  the test (the division then raises) or overflow (the quotient is then not a number).
  Neither is in this model.  The weights that \<^verbatim>\<open>search\<close> passes are at least 1 on an
  index built by \<^verbatim>\<open>add\<close>, far from both.
\<close>

definition py_sqrt :: "real \<Rightarrow> py_error + real" where
  "py_sqrt x = (if x < 0 then Inl ValueError else Inr (sqrt x))"

definition cosine :: "vec \<Rightarrow> vec \<Rightarrow> py_error + real" where
  "cosine a b =
     (if a = [] \<or> b = [] then Inr 0
      else
        (let (small, big) = (if length a < length b then (a, b) else (b, a));
             dot = fold (\<lambda>(k, v) acc.
                      case map_of big k of None \<Rightarrow> acc | Some w \<Rightarrow> acc + v * w) small 0;
             na = fold (\<lambda>(k, v) acc. acc + v * v) a 0;
             nb = fold (\<lambda>(k, v) acc. acc + v * v) b 0
         in if na = 0 \<or> nb = 0 then Inr 0
            else (case py_sqrt (na * nb) of
                    Inl e \<Rightarrow> Inl e
                  | Inr r \<Rightarrow> if r = 0 then Inl ZeroDivisionError else Inr (dot / r))))"

subsection \<open>\<^verbatim>\<open>search\<close>\<close>

record scored_point =
  sp_id :: string
  sp_score :: real
  sp_payload :: payload

text \<open>The scoring loop over \<^verbatim>\<open>doc_tokens.items()\<close>, with the list built so far.\<close>

fun score_loop ::
  "kstore \<Rightarrow> vec \<Rightarrow> (string \<times> counter) list \<Rightarrow> (real \<times> string) list
     \<Rightarrow> py_error + (real \<times> string) list" where
  "score_loop s q_vec [] scores = Inr scores"
| "score_loop s q_vec ((doc_id, tf) # rest) scores =
     (case tfidf_vec s tf of
        Inl e \<Rightarrow> Inl e
      | Inr d_vec \<Rightarrow>
          (case cosine q_vec d_vec of
             Inl e \<Rightarrow> Inl e
           | Inr score \<Rightarrow> score_loop s q_vec rest (scores @ [(score, doc_id)])))"

text \<open>
  \<^verbatim>\<open>scores.sort(reverse=True)\<close> on pairs \<^verbatim>\<open>(score, doc_id)\<close>: tuples compare by the
  score first and by the id next.  Two pairs that compare equal are the same pair, so
  the stability of Python's sort shows nowhere.  Two scores that are equal as reals
  can differ in their last bit as doubles; the code then ranks the two documents by
  that bit, the model by their ids.
\<close>

definition sort_reverse :: "(real \<times> string) list \<Rightarrow> (real \<times> string) list" where
  "sort_reverse xs = rev (sort xs)"

text \<open>
  The slice \<^verbatim>\<open>xs[:k]\<close>: a negative \<^verbatim>\<open>k\<close> counts from the end of the list.
\<close>

definition slice_to :: "'a list \<Rightarrow> int \<Rightarrow> 'a list" where
  "slice_to xs k =
     (if k < 0 then take (nat (int (length xs) + k)) xs else take (nat k) xs)"

fun result_loop ::
  "kstore \<Rightarrow> (real \<times> string) list \<Rightarrow> scored_point list \<Rightarrow> py_error + scored_point list" where
  "result_loop s [] results = Inr results"
| "result_loop s ((score, doc_id) # rest) results =
     (case map_of (docs s) doc_id of
        None \<Rightarrow> Inl KeyError
      | Some pl \<Rightarrow>
          result_loop s rest
            (results @ [\<lparr>sp_id = doc_id, sp_score = score, sp_payload = pl\<rparr>]))"

definition search :: "kstore \<Rightarrow> string \<Rightarrow> int \<Rightarrow> py_error + scored_point list" where
  "search s query top_k =
     (case tfidf_vec s (Counter (tokenize query)) of
        Inl e \<Rightarrow> Inl e
      | Inr q_vec \<Rightarrow>
          (case score_loop s q_vec (doc_tokens s) [] of
             Inl e \<Rightarrow> Inl e
           | Inr scores \<Rightarrow> result_loop s (slice_to (sort_reverse scores) top_k) []))"

subsection \<open>The facade in keyword mode\<close>

text \<open>
  \<^verbatim>\<open>VectorStore\<close> with no embeddings deployment configured holds one keyword store
  and forwards to it.  \<^verbatim>\<open>{"text": text, **metadata}\<close> is the dictionary with the key
  \<^verbatim>\<open>text\<close> overwritten by the metadata.
\<close>

definition add_document :: "kstore \<Rightarrow> string \<Rightarrow> string \<Rightarrow> payload \<Rightarrow> py_error + kstore" where
  "add_document s doc_id text metadata = add s doc_id text ([''text'' \<mapsto> text] ++ metadata)"

definition query :: "kstore \<Rightarrow> string \<Rightarrow> int \<Rightarrow> py_error + scored_point list" where
  "query s text top_k = search s text top_k"

subsection \<open>Sequences of calls\<close>

text \<open>
  A run of \<^verbatim>\<open>add\<close> calls from a given index, stopping at the first exception.
\<close>

fun add_all :: "kstore \<Rightarrow> (string \<times> string \<times> payload) list \<Rightarrow> py_error + kstore" where
  "add_all s [] = Inr s"
| "add_all s ((doc_id, text, pl) # rest) =
     (case add s doc_id text pl of Inl e \<Rightarrow> Inl e | Inr s' \<Rightarrow> add_all s' rest)"

subsection \<open>Example stores\<close>

text \<open>The index after \<^verbatim>\<open>add("d1", "a", {})\<close> and \<^verbatim>\<open>add("d2", "a", {})\<close>.\<close>

definition two_docs :: kstore where
  "two_docs =
     \<lparr>docs = [(''d1'', [''text'' \<mapsto> ''a'']), (''d2'', [''text'' \<mapsto> ''a''])],
      term_df = [''a'' \<mapsto> 2],
      doc_tokens = [(''d1'', [(''a'', 1)]), (''d2'', [(''a'', 1)])],
      N = 2\<rparr>"

text \<open>
  The index after \<^verbatim>\<open>add("d0", "delta", {})\<close>, \<^verbatim>\<open>add("d1", "alpha beta", {})\<close> and
  \<^verbatim>\<open>add("d1", "gamma", {})\<close>.
\<close>

definition delta_gamma :: kstore where
  "delta_gamma =
     \<lparr>docs = [(''d0'', [''text'' \<mapsto> ''delta'']), (''d1'', [''text'' \<mapsto> ''gamma''])],
      term_df = [''delta'' \<mapsto> 1, ''gamma'' \<mapsto> 1],
      doc_tokens = [(''d0'', [(''delta'', 1)]), (''d1'', [(''gamma'', 1)])],
      N = 2\<rparr>"

section \<open>Specification-level definitions\<close>

text \<open>
  The definitions of this section are not translations of code: they say, in closed
  form, what the loops of the index are shown to compute.
\<close>

definition containing :: "(string \<times> counter) list \<Rightarrow> string \<Rightarrow> nat" where
  "containing dts t = length (filter (\<lambda>(d, tf). t \<in> fst ` set tf) dts)"

definition store_inv :: "kstore \<Rightarrow> bool" where
  "store_inv s \<longleftrightarrow>
     map fst (docs s) = map fst (doc_tokens s) \<and>
     distinct (map fst (doc_tokens s)) \<and>
     N s = int (length (docs s)) \<and>
     (\<forall>t. term_df s t =
        (if containing (doc_tokens s) t = 0 then None
         else Some (int (containing (doc_tokens s) t)))) \<and>
     (\<forall>(d, tf) \<in> set (doc_tokens s). distinct (map fst tf) \<and> (\<forall>(t, f) \<in> set tf. 0 < f))"

definition weight :: "kstore \<Rightarrow> string \<Rightarrow> int \<Rightarrow> real" where
  "weight s t f =
     real_of_int f *
       (ln ((1 + real_of_int (N s)) / (1 + real_of_int (df_get (term_df s) t))) + 1)"

definition tfidf_spec :: "kstore \<Rightarrow> counter \<Rightarrow> vec" where
  "tfidf_spec s tf =
     map (\<lambda>(t, f). (t, weight s t f))
       (filter (\<lambda>(t, f). 0 < df_get (term_df s) t \<and> 0 < N s) tf)"

definition dot_sum :: "vec \<Rightarrow> vec \<Rightarrow> real" where
  "dot_sum small big =
     (\<Sum>(k, v) \<leftarrow> small. case map_of big k of None \<Rightarrow> 0 | Some w \<Rightarrow> v * w)"

definition sq_sum :: "vec \<Rightarrow> real" where
  "sq_sum a = (\<Sum>(k, v) \<leftarrow> a. v * v)"

definition cosine_spec :: "vec \<Rightarrow> vec \<Rightarrow> real" where
  "cosine_spec a b =
     (if a = [] \<or> b = [] \<or> sq_sum a = 0 \<or> sq_sum b = 0 then 0
      else (if length a < length b then dot_sum a b else dot_sum b a)
             / (sqrt (sq_sum a) * sqrt (sq_sum b)))"

definition scores_spec :: "kstore \<Rightarrow> string \<Rightarrow> (real \<times> string) list" where
  "scores_spec s qtext =
     map (\<lambda>(d, tf). (cosine_spec (tfidf_spec s (Counter (tokenize qtext))) (tfidf_spec s tf), d))
       (doc_tokens s)"

definition mk_point :: "kstore \<Rightarrow> real \<times> string \<Rightarrow> scored_point" where
  "mk_point s = (\<lambda>(score, d).
     \<lparr>sp_id = d, sp_score = score, sp_payload = the (map_of (docs s) d)\<rparr>)"

section \<open>Properties of the loops\<close>

lemma update_fresh: "k \<notin> fst ` set al \<Longrightarrow> AList.update k v al = al @ [(k, v)]"
  by (induction al) auto

lemma Counter_fold_distinct:
  "distinct (map fst c) \<Longrightarrow>
   distinct (map fst (fold (\<lambda>t c. AList.update t (counter_get c t + 1) c) ts c))"
  by (induction ts arbitrary: c) (simp_all add: distinct_update)

lemma Counter_distinct: "distinct (map fst (Counter ts))"
  unfolding Counter_def by (rule Counter_fold_distinct) simp

lemma Counter_fold_pos:
  "(\<forall>k v. map_of c k = Some v \<longrightarrow> 0 < v) \<Longrightarrow>
   map_of (fold (\<lambda>t c. AList.update t (counter_get c t + 1) c) ts c) k = Some v \<Longrightarrow> 0 < v"
proof (induction ts arbitrary: c)
  case Nil
  then show ?case by simp
next
  case (Cons t ts)
  have "\<forall>k v. map_of (AList.update t (counter_get c t + 1) c) k = Some v \<longrightarrow> 0 < v"
    using Cons.prems(1)
    by (fastforce simp: update_conv' counter_get_def split: option.splits if_splits)
  from Cons.IH [OF this] Cons.prems(2) show ?case by simp
qed

lemma Counter_pos: "(t, f) \<in> set (Counter ts) \<Longrightarrow> 0 < f"
proof -
  assume "(t, f) \<in> set (Counter ts)"
  then have "map_of (Counter ts) t = Some f"
    using Counter_distinct by simp
  then show ?thesis
    unfolding Counter_def using Counter_fold_pos [of "[]" ts t f] by simp
qed

lemma Counter_fold_keys:
  "fst ` set (fold (\<lambda>t c. AList.update t (counter_get c t + 1) c) ts c) = fst ` set c \<union> set ts"
  by (induction ts arbitrary: c) (auto simp: dom_update)

lemma Counter_keys: "fst ` set (Counter ts) = set ts"
  unfolding Counter_def by (simp add: Counter_fold_keys)

lemma retract_conv:
  "distinct ts \<Longrightarrow>
   retract df ts t =
     (if t \<in> set ts
      then (if df_get df t - 1 \<le> 0 then None else Some (df_get df t - 1))
      else df t)"
  by (induction ts arbitrary: df) (auto simp: df_get_def Let_def)

lemma apply_terms_conv:
  "distinct ts \<Longrightarrow>
   apply_terms df ts t = (if t \<in> set ts then Some (df_get df t + 1) else df t)"
  by (induction ts arbitrary: df) (auto simp: df_get_def)

lemma inv_init: "store_inv init"
  by (simp add: store_inv_def init_def containing_def)

lemma containing_update_new:
  "d \<notin> fst ` set dts \<Longrightarrow>
   containing (AList.update d tf dts) t = containing dts t + (if t \<in> fst ` set tf then 1 else 0)"
  by (simp add: update_fresh containing_def)

lemma containing_update_old:
  "distinct (map fst dts) \<Longrightarrow> map_of dts d = Some prev \<Longrightarrow>
   containing (AList.update d tf dts) t + (if t \<in> fst ` set prev then 1 else 0) =
   containing dts t + (if t \<in> fst ` set tf then 1 else 0)"
proof (induction dts)
  case Nil
  then show ?case by simp
next
  case (Cons p dts)
  obtain d' tf' where p: "p = (d', tf')" by (cases p)
  show ?case
  proof (cases "d' = d")
    case True
    with Cons.prems p have "prev = tf'" by simp
    with True p show ?thesis by (simp add: containing_def)
  next
    case False
    with Cons p have "containing (AList.update d tf dts) t + (if t \<in> fst ` set prev then 1 else 0) =
      containing dts t + (if t \<in> fst ` set tf then 1 else 0)" by simp
    with False p show ?thesis by (simp add: containing_def)
  qed
qed

lemma containing_pos:
  "map_of dts d = Some prev \<Longrightarrow> t \<in> fst ` set prev \<Longrightarrow> 0 < containing dts t"
proof -
  assume a: "map_of dts d = Some prev" "t \<in> fst ` set prev"
  then have "(d, prev) \<in> set dts" by (simp add: map_of_SomeD)
  with a(2) have "filter (\<lambda>(d, tf). t \<in> fst ` set tf) dts \<noteq> []"
    by (auto simp: filter_empty_conv)
  then show ?thesis by (simp add: containing_def)
qed

lemma update_keys_old:
  "d \<in> fst ` set al \<Longrightarrow> map fst (AList.update d v al) = map fst al"
  by (induction al) auto

lemma update_keys_new:
  "d \<notin> fst ` set al \<Longrightarrow> map fst (AList.update d v al) = map fst al @ [d]"
  by (simp add: update_fresh)

lemma update_values:
  "(k, v) \<in> set (AList.update d x al) \<Longrightarrow> (k, v) \<in> set al \<or> (k, v) = (d, x)"
  by (induction al) (auto split: if_splits)

lemma inv_same_keys: "store_inv s \<Longrightarrow> map fst (docs s) = map fst (doc_tokens s)"
  by (simp add: store_inv_def)

lemma inv_length: "store_inv s \<Longrightarrow> length (doc_tokens s) = length (docs s)"
  using inv_same_keys [of s] map_eq_imp_length_eq [of fst "docs s" fst "doc_tokens s"] by simp

lemma inv_key_set: "store_inv s \<Longrightarrow> fst ` set (docs s) = fst ` set (doc_tokens s)"
proof -
  assume "store_inv s"
  then have "set (map fst (docs s)) = set (map fst (doc_tokens s))"
    by (simp only: inv_same_keys)
  then show ?thesis by (simp only: set_map)
qed

lemma inv_keys: "store_inv s \<Longrightarrow> (map_of (docs s) d = None) = (d \<notin> fst ` set (doc_tokens s))"
  by (simp add: map_of_eq_None_iff inv_key_set)

lemma inv_df_get: "store_inv s \<Longrightarrow> df_get (term_df s) t = int (containing (doc_tokens s) t)"
  by (simp add: store_inv_def df_get_def)

lemma add_old:
  assumes "store_inv s" and "map_of (doc_tokens s) d = Some prev"
  shows "add s d text pl =
     Inr \<lparr>docs = AList.update d (pl ++ [''text'' \<mapsto> text]) (docs s),
          term_df = apply_terms (retract (term_df s) (map fst prev)) (map fst (Counter (tokenize text))),
          doc_tokens = AList.update d (Counter (tokenize text)) (doc_tokens s),
          N = int (length (AList.update d (pl ++ [''text'' \<mapsto> text]) (docs s)))\<rparr>"
proof -
  from assms(2) have "d \<in> fst ` set (doc_tokens s)"
    by (metis map_of_eq_None_iff option.distinct(1))
  with assms(1) have "map_of (docs s) d \<noteq> None" using inv_keys by blast
  with assms(2) show ?thesis by (auto simp add: add_def Let_def)
qed

lemma add_new:
  assumes "store_inv s" and "map_of (doc_tokens s) d = None"
  shows "add s d text pl =
     Inr \<lparr>docs = AList.update d (pl ++ [''text'' \<mapsto> text]) (docs s),
          term_df = apply_terms (term_df s) (map fst (Counter (tokenize text))),
          doc_tokens = AList.update d (Counter (tokenize text)) (doc_tokens s),
          N = int (length (AList.update d (pl ++ [''text'' \<mapsto> text]) (docs s)))\<rparr>"
proof -
  from assms(2) have "d \<notin> fst ` set (doc_tokens s)"
    by (simp add: map_of_eq_None_iff)
  with assms(1) have "map_of (docs s) d = None" using inv_keys by blast
  then show ?thesis by (simp add: add_def Let_def)
qed

lemma add_total: "store_inv s \<Longrightarrow> \<exists>s'. add s d text pl = Inr s'"
  by (cases "map_of (doc_tokens s) d") (simp_all add: add_old add_new)

lemma inv_add:
  assumes "store_inv s" and "add s d text pl = Inr s'"
  shows "store_inv s'"
proof -
  let ?tf = "Counter (tokenize text)"
  let ?dts = "doc_tokens s"
  have keys: "map fst (docs s) = map fst ?dts" and dist: "distinct (map fst ?dts)"
    and n: "N s = int (length (docs s))"
    and tfs: "\<forall>(d, tf) \<in> set ?dts. distinct (map fst tf) \<and> (\<forall>(t, f) \<in> set tf. 0 < f)"
    using assms(1) by (simp_all add: store_inv_def)
  have dt': "doc_tokens s' = AList.update d ?tf ?dts"
    and ds': "docs s' = AList.update d (pl ++ [''text'' \<mapsto> text]) (docs s)"
    and n': "N s' = int (length (docs s'))"
    using assms by (cases "map_of ?dts d"; simp add: add_old add_new; fastforce)+
  have k': "map fst (docs s') = map fst (doc_tokens s')"
    unfolding dt' ds' using keys
    by (cases "d \<in> fst ` set ?dts")
       (simp_all add: update_keys_old update_keys_new  del: set_map flip: set_map)
  have d': "distinct (map fst (doc_tokens s'))"
    unfolding dt' using dist by (simp add: distinct_update)
  have tfs': "\<forall>(d, tf) \<in> set (doc_tokens s'). distinct (map fst tf) \<and> (\<forall>(t, f) \<in> set tf. 0 < f)"
  proof -
    { fix k v assume "(k, v) \<in> set (doc_tokens s')"
      then have "(k, v) \<in> set ?dts \<or> v = ?tf"
        unfolding dt' using update_values by fastforce
      then have "distinct (map fst v) \<and> (\<forall>(t, f) \<in> set v. 0 < f)"
        using tfs Counter_distinct Counter_pos by fastforce }
    then show ?thesis by blast
  qed
  have df': "term_df s' t =
        (if containing (doc_tokens s') t = 0 then None
         else Some (int (containing (doc_tokens s') t)))" for t
  proof (cases "map_of ?dts d")
    case None
    then have "d \<notin> fst ` set ?dts" by (simp add: map_of_eq_None_iff)
    then have c: "containing (doc_tokens s') t =
        containing ?dts t + (if t \<in> fst ` set ?tf then 1 else 0)"
      unfolding dt' by (rule containing_update_new)
    have "term_df s' = apply_terms (term_df s) (map fst ?tf)"
      using assms None by (simp add: add_new) fastforce
    then show ?thesis
      using c inv_df_get [OF assms(1), of t] assms(1)
      by (simp add: apply_terms_conv Counter_distinct store_inv_def del: set_map flip: set_map)
  next
    case (Some prev)
    have c: "containing (doc_tokens s') t + (if t \<in> fst ` set prev then 1 else 0) =
        containing ?dts t + (if t \<in> fst ` set ?tf then 1 else 0)"
      unfolding dt' using dist Some by (rule containing_update_old)
    have pos: "t \<in> fst ` set prev \<Longrightarrow> 0 < containing ?dts t"
      using Some by (rule containing_pos)
    have "(d, prev) \<in> set ?dts" using Some by (simp add: map_of_SomeD)
    then have dp: "distinct (map fst prev)" using tfs by fastforce
    have "term_df s' = apply_terms (retract (term_df s) (map fst prev)) (map fst ?tf)"
      using assms Some by (simp add: add_old) fastforce
    then have "term_df s' t =
       (if t \<in> fst ` set ?tf
        then Some (df_get (retract (term_df s) (map fst prev)) t + 1)
        else retract (term_df s) (map fst prev) t)"
      by (simp add: apply_terms_conv Counter_distinct del: set_map flip: set_map)
    moreover have "retract (term_df s) (map fst prev) t =
       (if t \<in> fst ` set prev
        then (if int (containing ?dts t) - 1 \<le> 0 then None else Some (int (containing ?dts t) - 1))
        else term_df s t)"
      using dp inv_df_get [OF assms(1), of t]
      by (simp add: retract_conv del: set_map flip: set_map)
    moreover have "term_df s t = (if containing ?dts t = 0 then None else Some (int (containing ?dts t)))"
      using assms(1) by (simp add: store_inv_def)
    ultimately show ?thesis
      using c pos by (auto simp: df_get_def split: if_splits)
  qed
  show ?thesis
    unfolding store_inv_def using k' d' n' tfs' df' by blast
qed

lemma idf_ok:
  "0 \<le> n \<Longrightarrow> 0 \<le> df \<Longrightarrow>
   idf n df = Inr (ln ((1 + real_of_int n) / (1 + real_of_int df)) + 1)"
proof -
  assume a: "0 \<le> n" "0 \<le> df"
  then have "0 < (1 + real_of_int n) / (1 + real_of_int df)" by simp
  then have "\<not> (1 + real_of_int n) / (1 + real_of_int df) \<le> 0" by linarith
  moreover have "1 + df \<noteq> 0" using a by linarith
  ultimately show ?thesis by (simp add: idf_def py_truediv_def py_log_def)
qed

lemma tfidf_loop_spec:
  assumes "\<forall>t. 0 \<le> df_get (term_df s) t" and "0 \<le> N s"
  shows "distinct (map fst tf) \<Longrightarrow> fst ` set tf \<inter> fst ` set v = {} \<Longrightarrow>
         tfidf_loop s tf v = Inr (v @ tfidf_spec s tf)"
proof (induction tf arbitrary: v)
  case Nil
  then show ?case by (simp add: tfidf_spec_def)
next
  case (Cons p tf)
  obtain t f where p: "p = (t, f)" by (cases p)
  have d: "distinct (map fst tf)" and tn: "t \<notin> fst ` set tf" and tv: "t \<notin> fst ` set v"
    and dj: "fst ` set tf \<inter> fst ` set v = {}"
    using Cons.prems p by auto
  have df0: "0 \<le> df_get (term_df s) t" using assms(1) by simp
  show ?case
  proof (cases "df_get (term_df s) t = 0 \<or> N s = 0")
    case True
    then have "tfidf_loop s (p # tf) v = tfidf_loop s tf v" using p by auto
    also have "\<dots> = Inr (v @ tfidf_spec s tf)" using d dj by (rule Cons.IH)
    also have "tfidf_spec s tf = tfidf_spec s (p # tf)"
      using True p by (auto simp: tfidf_spec_def)
    finally show ?thesis .
  next
    case False
    let ?v' = "AList.update t (real_of_int f * (ln ((1 + real_of_int (N s)) / (1 + real_of_int (df_get (term_df s) t))) + 1)) v"
    have v': "?v' = v @ [(t, weight s t f)]"
      using tv by (simp add: update_fresh weight_def)
    have "fst ` set tf \<inter> fst ` set ?v' = {}"
      unfolding v' using dj tn by auto
    with d have ih: "tfidf_loop s tf ?v' = Inr (?v' @ tfidf_spec s tf)" by (rule Cons.IH)
    have "tfidf_loop s (p # tf) v = tfidf_loop s tf ?v'"
      using False p df0 assms(2) by (simp add: idf_ok)
    also note ih
    also have "?v' @ tfidf_spec s tf = v @ tfidf_spec s (p # tf)"
      unfolding v' using False p df0 assms(2) by (simp add: tfidf_spec_def)
    finally show ?thesis .
  qed
qed

lemma tfidf_vec_spec:
  "\<forall>t. 0 \<le> df_get (term_df s) t \<Longrightarrow> 0 \<le> N s \<Longrightarrow> distinct (map fst tf) \<Longrightarrow>
   tfidf_vec s tf = Inr (tfidf_spec s tf)"
  unfolding tfidf_vec_def using tfidf_loop_spec [of s tf "[]"] by simp

lemma inv_df_nonneg: "store_inv s \<Longrightarrow> 0 \<le> df_get (term_df s) t"
  by (simp add: inv_df_get)

lemma inv_N_nonneg: "store_inv s \<Longrightarrow> 0 \<le> N s"
  by (simp add: store_inv_def)

lemma inv_tfidf_vec:
  "store_inv s \<Longrightarrow> distinct (map fst tf) \<Longrightarrow> tfidf_vec s tf = Inr (tfidf_spec s tf)"
  by (simp add: tfidf_vec_spec inv_df_nonneg inv_N_nonneg)

lemma fold_acc_sum:
  "fold (\<lambda>(k, v) acc. acc + g k v) xs (a::real) = a + (\<Sum>(k, v) \<leftarrow> xs. g k v)"
  by (induction xs arbitrary: a) (auto simp: algebra_simps)

lemma fold_dot:
  "fold (\<lambda>(k, v) acc. case map_of big k of None \<Rightarrow> acc | Some w \<Rightarrow> acc + v * w) small (a::real)
     = a + dot_sum small big"
  unfolding dot_sum_def
  by (induction small arbitrary: a) (auto simp: algebra_simps split: option.splits)

lemma fold_sq: "fold (\<lambda>(k, v) acc. acc + v * v) xs (0::real) = sq_sum xs"
  unfolding sq_sum_def using fold_acc_sum [of "\<lambda>k v. v * v" xs 0] by simp

lemma sq_sum_nonneg: "0 \<le> sq_sum a"
  unfolding sq_sum_def by (induction a) auto

lemma cosine_total: "cosine a b = Inr (cosine_spec a b)"
proof (cases "a = [] \<or> b = [] \<or> sq_sum a = 0 \<or> sq_sum b = 0")
  case True
  then show ?thesis
    by (auto simp: cosine_def cosine_spec_def fold_sq Let_def split: prod.splits)
next
  case False
  then have pa: "0 < sq_sum a" and pb: "0 < sq_sum b"
    using sq_sum_nonneg [of a] sq_sum_nonneg [of b] by auto
  then have "\<not> sq_sum a * sq_sum b < 0"
    by (simp add: not_less mult_nonneg_nonneg less_imp_le)
  then have "py_sqrt (sq_sum a * sq_sum b) = Inr (sqrt (sq_sum a) * sqrt (sq_sum b))"
    and "sqrt (sq_sum a) * sqrt (sq_sum b) \<noteq> 0"
    using pa pb by (simp_all add: py_sqrt_def real_sqrt_mult)
  with False show ?thesis
    using fold_dot [of b a 0] fold_dot [of a b 0]
    by (simp add: cosine_def cosine_spec_def fold_sq Let_def)
qed

lemma score_loop_spec:
  assumes "store_inv s"
  shows "\<forall>(d, tf) \<in> set dts. distinct (map fst tf) \<Longrightarrow>
     score_loop s q dts acc =
       Inr (acc @ map (\<lambda>(d, tf). (cosine_spec q (tfidf_spec s tf), d)) dts)"
proof (induction dts arbitrary: acc)
  case Nil
  then show ?case by simp
next
  case (Cons p dts)
  obtain d tf where p: "p = (d, tf)" by (cases p)
  with Cons.prems have "distinct (map fst tf)" by simp
  with assms have "tfidf_vec s tf = Inr (tfidf_spec s tf)" by (rule inv_tfidf_vec)
  moreover have "\<forall>(d, tf) \<in> set dts. distinct (map fst tf)" using Cons.prems by simp
  ultimately show ?case
    using p Cons.IH by (simp add: cosine_total)
qed

lemma result_loop_spec:
  "\<forall>(sc, d) \<in> set xs. d \<in> fst ` set (docs s) \<Longrightarrow>
   result_loop s xs acc = Inr (acc @ map (mk_point s) xs)"
proof (induction xs arbitrary: acc)
  case Nil
  then show ?case by simp
next
  case (Cons p xs)
  obtain sc d where p: "p = (sc, d)" by (cases p)
  with Cons.prems have "d \<in> fst ` set (docs s)" by simp
  then obtain pl where pl: "map_of (docs s) d = Some pl"
    by (metis map_of_eq_None_iff not_Some_eq)
  moreover have "\<forall>(sc, d) \<in> set xs. d \<in> fst ` set (docs s)" using Cons.prems by simp
  ultimately show ?case
    using p Cons.IH by (simp add: mk_point_def)
qed

lemma set_slice_to: "set (slice_to xs k) \<subseteq> set xs"
  by (auto simp: slice_to_def dest: in_set_takeD)

lemma set_sort_reverse: "set (sort_reverse xs) = set xs"
  by (simp add: sort_reverse_def)

lemma inv_tfs_distinct: "store_inv s \<Longrightarrow> \<forall>(d, tf) \<in> set (doc_tokens s). distinct (map fst tf)"
  by (fastforce simp: store_inv_def)

lemma search_spec:
  assumes "store_inv s"
  shows "search s qtext top_k =
     Inr (map (mk_point s) (slice_to (sort_reverse (scores_spec s qtext)) top_k))"
proof -
  let ?q = "tfidf_spec s (Counter (tokenize qtext))"
  have q: "tfidf_vec s (Counter (tokenize qtext)) = Inr ?q"
    using assms Counter_distinct by (rule inv_tfidf_vec)
  have sc: "score_loop s ?q (doc_tokens s) [] = Inr (scores_spec s qtext)"
    using score_loop_spec [OF assms inv_tfs_distinct [OF assms], of ?q "[]"]
    by (simp add: scores_spec_def)
  have "fst ` set (docs s) = fst ` set (doc_tokens s)"
    using assms by (rule inv_key_set)
  then have "\<forall>(sc, d) \<in> set (scores_spec s qtext). d \<in> fst ` set (docs s)"
    by (force simp: scores_spec_def)
  then have "\<forall>(sc, d) \<in> set (slice_to (sort_reverse (scores_spec s qtext)) top_k).
      d \<in> fst ` set (docs s)"
    using set_slice_to [of "sort_reverse (scores_spec s qtext)" top_k]
    by (auto simp: set_sort_reverse)
  then have "result_loop s (slice_to (sort_reverse (scores_spec s qtext)) top_k) [] =
      Inr (map (mk_point s) (slice_to (sort_reverse (scores_spec s qtext)) top_k))"
    using result_loop_spec [of _ s "[]"] by simp
  with q sc show ?thesis by (simp add: search_def)
qed

subsection \<open>Runs of \<^verbatim>\<open>add\<close>\<close>

lemma add_all_inv: "store_inv s \<Longrightarrow> add_all s ops = Inr s' \<Longrightarrow> store_inv s'"
proof (induction ops arbitrary: s)
  case Nil
  then show ?case by simp
next
  case (Cons p ops)
  obtain d tx pl where p: "p = (d, tx, pl)" by (cases p)
  from Cons.prems(1) obtain s1 where s1: "add s d tx pl = Inr s1"
    using add_total by blast
  with Cons.prems(1) have "store_inv s1" by (rule inv_add)
  moreover have "add_all s1 ops = Inr s'" using Cons.prems(2) p s1 by simp
  ultimately show ?case by (rule Cons.IH)
qed

lemma add_all_total: "store_inv s \<Longrightarrow> \<exists>s'. add_all s ops = Inr s'"
proof (induction ops arbitrary: s)
  case Nil
  then show ?case by simp
next
  case (Cons p ops)
  obtain d tx pl where p: "p = (d, tx, pl)" by (cases p)
  from Cons.prems obtain s1 where s1: "add s d tx pl = Inr s1"
    using add_total by blast
  with Cons.prems have "store_inv s1" by (rule inv_add)
  then obtain s' where "add_all s1 ops = Inr s'" using Cons.IH by blast
  with p s1 show ?case by simp
qed

lemma add_all_append:
  "add_all s (xs @ ys) = (case add_all s xs of Inl e \<Rightarrow> Inl e | Inr s' \<Rightarrow> add_all s' ys)"
  by (induction xs arbitrary: s) (auto split: sum.splits)

lemma built_inv: "add_all init ops = Inr s \<Longrightarrow> store_inv s"
  using inv_init by (rule add_all_inv)

lemma tok_a: "tokenize ''a'' = [''a'']" by code_simp
lemma tok_alpha: "tokenize ''alpha'' = [''alpha'']" by code_simp
lemma tok_alpha_beta: "tokenize ''alpha beta'' = [''alpha'', ''beta'']" by code_simp
lemma tok_gamma: "tokenize ''gamma'' = [''gamma'']" by code_simp

subsection \<open>Ranking and slicing\<close>

lemma length_ranked: "length (sort_reverse (scores_spec s q)) = length (doc_tokens s)"
  by (simp add: sort_reverse_def scores_spec_def)

lemma ids_scores: "map snd (scores_spec s q) = map fst (doc_tokens s)"
  by (simp add: scores_spec_def case_prod_beta comp_def)

lemma id_mk_point: "map sp_id (map (mk_point s) xs) = map snd xs"
  by (simp add: mk_point_def case_prod_beta comp_def)

lemma score_mk_point: "map sp_score (map (mk_point s) xs) = map fst xs"
  by (simp add: mk_point_def case_prod_beta comp_def)

lemma slice_to_all: "0 \<le> k \<Longrightarrow> int (length xs) \<le> k \<Longrightarrow> slice_to xs k = xs"
  by (simp add: slice_to_def)

lemma slice_to_take: "0 \<le> k \<Longrightarrow> slice_to xs k = take (nat k) xs"
  by (simp add: slice_to_def)

lemma slice_to_Nil_iff:
  "k \<le> 0 \<Longrightarrow> slice_to xs k = [] \<longleftrightarrow> k = 0 \<or> int (length xs) \<le> - k"
  by (auto simp: slice_to_def)

subsection \<open>The example stores\<close>

lemma two_docs_built:
  "add_all init [(''d1'', ''a'', Map.empty), (''d2'', ''a'', Map.empty)] = Inr two_docs"
  by (simp add: init_def add_def tok_a Counter_def counter_get_def df_get_def two_docs_def Let_def)

lemma two_docs_search_neg:
  "search two_docs ''a'' (- 1) =
     Inr [\<lparr>sp_id = ''d2'', sp_score = 1, sp_payload = [''text'' \<mapsto> ''a'']\<rparr>]"
  by (simp add: search_def two_docs_def tok_a Counter_def counter_get_def df_get_def tfidf_vec_def
     idf_def py_truediv_def py_log_def cosine_def py_sqrt_def sort_reverse_def slice_to_def)

lemma two_docs_search_all:
  "search two_docs ''a'' 3 =
     Inr [\<lparr>sp_id = ''d2'', sp_score = 1, sp_payload = [''text'' \<mapsto> ''a'']\<rparr>,
          \<lparr>sp_id = ''d1'', sp_score = 1, sp_payload = [''text'' \<mapsto> ''a'']\<rparr>]"
  by (simp add: search_def two_docs_def tok_a Counter_def counter_get_def df_get_def tfidf_vec_def
     idf_def py_truediv_def py_log_def cosine_def py_sqrt_def sort_reverse_def slice_to_def)

subsection \<open>Order of the results\<close>

lemma distinct_scores: "store_inv s \<Longrightarrow> distinct (scores_spec s q)"
proof -
  assume "store_inv s"
  then have "distinct (map snd (scores_spec s q))"
    by (simp only: ids_scores) (simp add: store_inv_def)
  then show ?thesis by (rule distinct_map [THEN iffD1, THEN conjunct1])
qed

lemma ranked_strict:
  "distinct xs \<Longrightarrow> sorted_wrt (\<lambda>x y. y < x) (slice_to (sort_reverse xs) k)"
proof -
  assume "distinct xs"
  then have "sorted_wrt (<) (sort xs)"
    by (simp add: strict_sorted_iff)
  then have "sorted_wrt (\<lambda>x y. y < x) (sort_reverse xs)"
    by (simp add: sort_reverse_def sorted_wrt_rev)
  then show ?thesis
    by (simp add: slice_to_def sorted_wrt_take)
qed

subsection \<open>What one call changes\<close>

lemma add_docs:
  assumes "store_inv s" and "add s d tx pl = Inr s'"
  shows "docs s' = AList.update d (pl ++ [''text'' \<mapsto> tx]) (docs s)"
proof (cases "map_of (doc_tokens s) d")
  case None
  from add_new [OF assms(1) None, of tx pl] assms(2)
  have "s' = \<lparr>docs = AList.update d (pl ++ [''text'' \<mapsto> tx]) (docs s),
          term_df = apply_terms (term_df s) (map fst (Counter (tokenize tx))),
          doc_tokens = AList.update d (Counter (tokenize tx)) (doc_tokens s),
          N = int (length (AList.update d (pl ++ [''text'' \<mapsto> tx]) (docs s)))\<rparr>"
    by simp
  then show ?thesis by simp
next
  case (Some prev)
  from add_old [OF assms(1) Some, of tx pl] assms(2)
  have "s' = \<lparr>docs = AList.update d (pl ++ [''text'' \<mapsto> tx]) (docs s),
          term_df = apply_terms (retract (term_df s) (map fst prev)) (map fst (Counter (tokenize tx))),
          doc_tokens = AList.update d (Counter (tokenize tx)) (doc_tokens s),
          N = int (length (AList.update d (pl ++ [''text'' \<mapsto> tx]) (docs s)))\<rparr>"
    by simp
  then show ?thesis by simp
qed

subsection \<open>Independence of the insertion order\<close>

lemma sort_mset_eq: "mset xs = mset ys \<Longrightarrow> sort xs = sort (ys :: ('a::linorder) list)"
  by (rule properties_for_sort) simp_all

lemma update_commute_mset:
  "a \<noteq> b \<Longrightarrow>
   mset (AList.update a x (AList.update b y l)) = mset (AList.update b y (AList.update a x l))"
  by (induction l) auto

lemma update_commute_map:
  "a \<noteq> b \<Longrightarrow>
   map_of (AList.update a x (AList.update b y l)) = map_of (AList.update b y (AList.update a x l))"
  by (simp add: update_conv' fun_upd_twist)

lemma containing_mset: "mset dts = mset dts' \<Longrightarrow> containing dts t = containing dts' t"
proof -
  assume "mset dts = mset dts'"
  then have "size (mset (filter (\<lambda>(d, tf). t \<in> fst ` set tf) dts)) =
             size (mset (filter (\<lambda>(d, tf). t \<in> fst ` set tf) dts'))"
    by (simp only: mset_filter)
  then show ?thesis
    unfolding containing_def by (simp only: size_mset)
qed

lemma inv_term_df_mset:
  assumes "store_inv s1" and "store_inv s2" and "mset (doc_tokens s1) = mset (doc_tokens s2)"
  shows "term_df s1 = term_df s2"
proof
  fix t
  have "containing (doc_tokens s1) t = containing (doc_tokens s2) t"
    using assms(3) by (rule containing_mset)
  moreover have "term_df s1 t =
      (if containing (doc_tokens s1) t = 0 then None
       else Some (int (containing (doc_tokens s1) t)))"
    using assms(1) by (simp add: store_inv_def)
  moreover have "term_df s2 t =
      (if containing (doc_tokens s2) t = 0 then None
       else Some (int (containing (doc_tokens s2) t)))"
    using assms(2) by (simp add: store_inv_def)
  ultimately show "term_df s1 t = term_df s2 t" by simp
qed

lemma inv_N_mset:
  assumes "store_inv s1" and "store_inv s2" and "mset (doc_tokens s1) = mset (doc_tokens s2)"
  shows "N s1 = N s2"
proof -
  have "length (doc_tokens s1) = length (doc_tokens s2)"
    using assms(3) by (rule mset_eq_length)
  moreover have "N s1 = int (length (doc_tokens s1))"
    using assms(1) by (simp add: store_inv_def inv_length)
  moreover have "N s2 = int (length (doc_tokens s2))"
    using assms(2) by (simp add: store_inv_def inv_length)
  ultimately show ?thesis by simp
qed

lemma tfidf_spec_cong:
  "term_df s1 = term_df s2 \<Longrightarrow> N s1 = N s2 \<Longrightarrow> tfidf_spec s1 tf = tfidf_spec s2 tf"
  by (simp add: tfidf_spec_def weight_def)

lemma scores_spec_mset:
  assumes "term_df s1 = term_df s2" and "N s1 = N s2"
    and "mset (doc_tokens s1) = mset (doc_tokens s2)"
  shows "mset (scores_spec s1 q) = mset (scores_spec s2 q)"
proof -
  have "scores_spec s1 q =
      map (\<lambda>(d, tf). (cosine_spec (tfidf_spec s2 (Counter (tokenize q))) (tfidf_spec s2 tf), d))
        (doc_tokens s1)"
    unfolding scores_spec_def using assms(1,2) by (simp add: tfidf_spec_cong [of s1 s2])
  then show ?thesis
    unfolding scores_spec_def [of s2] by (simp only: mset_map assms(3))
qed

lemma mk_point_cong: "map_of (docs s1) = map_of (docs s2) \<Longrightarrow> mk_point s1 = mk_point s2"
  by (simp add: mk_point_def fun_eq_iff)

lemma search_cong:
  assumes "store_inv s1" and "store_inv s2"
    and "mset (doc_tokens s1) = mset (doc_tokens s2)"
    and "map_of (docs s1) = map_of (docs s2)"
  shows "search s1 q k = search s2 q k"
proof -
  have df: "term_df s1 = term_df s2" using assms(1-3) by (rule inv_term_df_mset)
  have n: "N s1 = N s2" using assms(1-3) by (rule inv_N_mset)
  have "mset (scores_spec s1 q) = mset (scores_spec s2 q)"
    using df n assms(3) by (rule scores_spec_mset)
  then have "sort (scores_spec s1 q) = sort (scores_spec s2 q)"
    by (rule sort_mset_eq)
  then have "sort_reverse (scores_spec s1 q) = sort_reverse (scores_spec s2 q)"
    unfolding sort_reverse_def by (rule arg_cong)
  moreover have "mk_point s1 = mk_point s2" using assms(4) by (rule mk_point_cong)
  ultimately show ?thesis
    by (simp only: search_spec [OF assms(1)] search_spec [OF assms(2)])
qed

lemma add_doc_tokens:
  assumes "store_inv s" and "add s d tx pl = Inr s'"
  shows "doc_tokens s' = AList.update d (Counter (tokenize tx)) (doc_tokens s)"
proof (cases "map_of (doc_tokens s) d")
  case None
  from add_new [OF assms(1) None, of tx pl] assms(2)
  have "s' = \<lparr>docs = AList.update d (pl ++ [''text'' \<mapsto> tx]) (docs s),
          term_df = apply_terms (term_df s) (map fst (Counter (tokenize tx))),
          doc_tokens = AList.update d (Counter (tokenize tx)) (doc_tokens s),
          N = int (length (AList.update d (pl ++ [''text'' \<mapsto> tx]) (docs s)))\<rparr>"
    by simp
  then show ?thesis by simp
next
  case (Some prev)
  from add_old [OF assms(1) Some, of tx pl] assms(2)
  have "s' = \<lparr>docs = AList.update d (pl ++ [''text'' \<mapsto> tx]) (docs s),
          term_df = apply_terms (retract (term_df s) (map fst prev)) (map fst (Counter (tokenize tx))),
          doc_tokens = AList.update d (Counter (tokenize tx)) (doc_tokens s),
          N = int (length (AList.update d (pl ++ [''text'' \<mapsto> tx]) (docs s)))\<rparr>"
    by simp
  then show ?thesis by simp
qed

lemma add_two:
  assumes "store_inv s"
  shows "\<exists>s1 s2. add s a ta pa = Inr s1 \<and> add s1 b tb pb = Inr s2 \<and> store_inv s2 \<and>
     doc_tokens s2 =
       AList.update b (Counter (tokenize tb)) (AList.update a (Counter (tokenize ta)) (doc_tokens s)) \<and>
     docs s2 =
       AList.update b (pb ++ [''text'' \<mapsto> tb]) (AList.update a (pa ++ [''text'' \<mapsto> ta]) (docs s))"
proof -
  obtain s1 where s1: "add s a ta pa = Inr s1" using add_total [OF assms] by blast
  have i1: "store_inv s1" using assms s1 by (rule inv_add)
  obtain s2 where s2: "add s1 b tb pb = Inr s2" using add_total [OF i1] by blast
  have i2: "store_inv s2" using i1 s2 by (rule inv_add)
  have t: "doc_tokens s2 =
       AList.update b (Counter (tokenize tb)) (AList.update a (Counter (tokenize ta)) (doc_tokens s))"
    by (simp only: add_doc_tokens [OF i1 s2] add_doc_tokens [OF assms s1])
  have d: "docs s2 =
       AList.update b (pb ++ [''text'' \<mapsto> tb]) (AList.update a (pa ++ [''text'' \<mapsto> ta]) (docs s))"
    by (simp only: add_docs [OF i1 s2] add_docs [OF assms s1])
  show ?thesis
    by (rule exI [of _ s1], rule exI [of _ s2], intro conjI) (rule s1, rule s2, rule i2, rule t, rule d)
qed

subsection \<open>Weights\<close>

lemma containing_le: "containing dts t \<le> length dts"
  by (simp add: containing_def)

lemma inv_df_le_N: "store_inv s \<Longrightarrow> df_get (term_df s) t \<le> N s"
proof -
  assume i: "store_inv s"
  have "int (containing (doc_tokens s) t) \<le> int (length (doc_tokens s))"
    using containing_le [of "doc_tokens s" t] by simp
  also have "\<dots> = N s" using i by (simp add: store_inv_def inv_length)
  finally show ?thesis using i by (simp add: inv_df_get)
qed

lemma weight_nonneg:
  assumes "store_inv s" and "0 \<le> f"
  shows "0 \<le> weight s t f"
proof -
  have "0 \<le> df_get (term_df s) t" using assms(1) by (rule inv_df_nonneg)
  moreover have "df_get (term_df s) t \<le> N s" using assms(1) by (rule inv_df_le_N)
  ultimately have "1 \<le> (1 + real_of_int (N s)) / (1 + real_of_int (df_get (term_df s) t))"
    by simp
  then have "0 \<le> ln ((1 + real_of_int (N s)) / (1 + real_of_int (df_get (term_df s) t)))"
    by simp
  then show ?thesis using assms(2) by (simp add: weight_def)
qed

lemma tfidf_spec_nonneg:
  assumes "store_inv s" and "\<forall>(t, f) \<in> set tf. 0 < f"
  shows "\<forall>(t, w) \<in> set (tfidf_spec s tf). 0 \<le> w"
proof -
  { fix t w assume "(t, w) \<in> set (tfidf_spec s tf)"
    then obtain f where "(t, f) \<in> set tf" "w = weight s t f"
      by (auto simp: tfidf_spec_def)
    with assms(2) have "0 \<le> f" "w = weight s t f" by auto
    with assms(1) have "0 \<le> w" by (simp add: weight_nonneg) }
  then show ?thesis by blast
qed

lemma tfidf_spec_keys: "fst ` set (tfidf_spec s tf) \<subseteq> fst ` set tf"
  by (force simp: tfidf_spec_def)

lemma map_of_map_filter:
  "distinct (map fst tf) \<Longrightarrow>
   map_of (map (\<lambda>(t, f). (t, g t f)) (filter (\<lambda>(t, f). P t) tf)) t =
     (case map_of tf t of None \<Rightarrow> None | Some f \<Rightarrow> if P t then Some (g t f) else None)"
proof (induction tf)
  case Nil
  then show ?case by simp
next
  case (Cons p tf)
  obtain t' f' where p: "p = (t', f')" by (cases p)
  have ih: "map_of (map (\<lambda>(t, f). (t, g t f)) (filter (\<lambda>(t, f). P t) tf)) t =
     (case map_of tf t of None \<Rightarrow> None | Some f \<Rightarrow> if P t then Some (g t f) else None)"
    using Cons by simp
  show ?case
  proof (cases "t = t'")
    case True
    have "t' \<notin> fst ` set tf" using Cons.prems p by simp
    then have "map_of tf t' = None" by (simp add: map_of_eq_None_iff)
    with True p ih show ?thesis by simp
  next
    case False
    with p ih show ?thesis by simp
  qed
qed

lemma map_of_tfidf_spec:
  "distinct (map fst tf) \<Longrightarrow>
   map_of (tfidf_spec s tf) t =
     (case map_of tf t of
        None \<Rightarrow> None
      | Some f \<Rightarrow> if 0 < df_get (term_df s) t \<and> 0 < N s then Some (weight s t f) else None)"
  unfolding tfidf_spec_def
  by (rule map_of_map_filter [of tf "\<lambda>t f. weight s t f" "\<lambda>t. 0 < df_get (term_df s) t \<and> 0 < N s" t])

lemma inv_stored_tf:
  "store_inv s \<Longrightarrow> tf \<in> snd ` set (doc_tokens s) \<Longrightarrow>
   distinct (map fst tf) \<and> (\<forall>(t, f) \<in> set tf. 0 < f)"
  by (fastforce simp: store_inv_def)

lemma Counter_wf: "distinct (map fst (Counter toks)) \<and> (\<forall>(t, f) \<in> set (Counter toks). 0 < f)"
  using Counter_distinct Counter_pos by fastforce

subsection \<open>Cosine values and scores\<close>



lemma dot_sum_disjoint: "fst ` set a \<inter> fst ` set b = {} \<Longrightarrow> dot_sum a b = 0"
proof -
  assume d: "fst ` set a \<inter> fst ` set b = {}"
  have "map (\<lambda>(k, v). case map_of b k of None \<Rightarrow> 0 | Some w \<Rightarrow> v * w) a = map (\<lambda>x. 0::real) a"
  proof (rule map_cong [OF refl])
    fix x assume xa: "x \<in> set a"
    then have "fst x \<notin> fst ` set b" using d by auto
    then have "map_of b (fst x) = None" by (simp add: map_of_eq_None_iff)
    then show "(case x of (k, v) \<Rightarrow> case map_of b k of None \<Rightarrow> 0 | Some w \<Rightarrow> v * w) = 0"
      by (simp add: case_prod_beta)
  qed
  then have "dot_sum a b = sum_list (map (\<lambda>x. 0::real) a)"
    unfolding dot_sum_def by (rule arg_cong)
  then show ?thesis by simp
qed

lemma cosine_spec_disjoint: "fst ` set a \<inter> fst ` set b = {} \<Longrightarrow> cosine_spec a b = 0"
  using dot_sum_disjoint [of a b] dot_sum_disjoint [of b a]
  by (auto simp: cosine_spec_def Int_commute)

lemma tfidf_spec_Counter_keys: "fst ` set (tfidf_spec s (Counter toks)) \<subseteq> set toks"
  using tfidf_spec_keys [of s "Counter toks"] by (simp only: Counter_keys)

lemma result_origin:
  assumes "store_inv s" and "search s q k = Inr rs" and "r \<in> set rs"
  shows "\<exists>tf. (sp_id r, tf) \<in> set (doc_tokens s) \<and>
           sp_score r = cosine_spec (tfidf_spec s (Counter (tokenize q))) (tfidf_spec s tf)"
proof -
  have "rs = map (mk_point s) (slice_to (sort_reverse (scores_spec s q)) k)"
    using assms(1,2) by (simp add: search_spec)
  with assms(3) obtain x where x: "x \<in> set (slice_to (sort_reverse (scores_spec s q)) k)"
    and r: "r = mk_point s x" by auto
  from x have "x \<in> set (scores_spec s q)"
    using set_slice_to [of "sort_reverse (scores_spec s q)" k] by (auto simp: set_sort_reverse)
  then obtain d tf where dtf: "(d, tf) \<in> set (doc_tokens s)"
    and xe: "x = (cosine_spec (tfidf_spec s (Counter (tokenize q))) (tfidf_spec s tf), d)"
    by (auto simp: scores_spec_def)
  from r xe have "sp_id r = d"
    and "sp_score r = cosine_spec (tfidf_spec s (Counter (tokenize q))) (tfidf_spec s tf)"
    by (simp_all add: mk_point_def)
  with dtf show ?thesis by blast
qed

lemma stored_tf_unique:
  "store_inv s \<Longrightarrow> (d, tf) \<in> set (doc_tokens s) \<Longrightarrow> (d, tf') \<in> set (doc_tokens s) \<Longrightarrow> tf = tf'"
proof -
  assume "store_inv s" and a: "(d, tf) \<in> set (doc_tokens s)" "(d, tf') \<in> set (doc_tokens s)"
  then have "distinct (map fst (doc_tokens s))" by (simp add: store_inv_def)
  with a show ?thesis by (rule_tac eq_key_imp_eq_value)
qed


lemma result_disjoint:
  assumes "store_inv s" and "search s q k = Inr rs" and "r \<in> set rs"
    and "(sp_id r, tf) \<in> set (doc_tokens s)" and "set (tokenize q) \<inter> fst ` set tf = {}"
  shows "sp_score r = 0"
proof -
  from result_origin [OF assms(1-3)] obtain tf' where tf': "(sp_id r, tf') \<in> set (doc_tokens s)"
    and sc: "sp_score r = cosine_spec (tfidf_spec s (Counter (tokenize q))) (tfidf_spec s tf')"
    by blast
  have "tf' = tf" using assms(1) tf' assms(4) by (rule stored_tf_unique)
  moreover have "fst ` set (tfidf_spec s (Counter (tokenize q))) \<inter> fst ` set (tfidf_spec s tf) = {}"
    using tfidf_spec_Counter_keys [of s "tokenize q"] tfidf_spec_keys [of s tf] assms(5) by blast
  ultimately show ?thesis unfolding sc by (simp add: cosine_spec_disjoint)
qed

subsection \<open>Further example stores\<close>

lemma tok_delta: "tokenize ''delta'' = [''delta'']" by code_simp

lemma delta_gamma_built:
  "add_all init ([(''d0'', ''delta'', Map.empty)] @
      [(''d1'', ''alpha beta'', Map.empty), (''d1'', ''gamma'', Map.empty)]) = Inr delta_gamma"
  by (simp add: init_def add_def tok_alpha_beta tok_gamma tok_delta Counter_def counter_get_def
        df_get_def delta_gamma_def Let_def fun_eq_iff)


subsection \<open>A document added again\<close>

lemma search_all_ids:
  assumes "store_inv s" and "N s \<le> k" and "search s q k = Inr rs"
  shows "sp_id ` set rs = fst ` set (doc_tokens s)"
proof -
  let ?xs = "sort_reverse (scores_spec s q)"
  have n: "N s = int (length ?xs)"
    using assms(1) by (simp add: store_inv_def length_ranked inv_length)
  then have "slice_to ?xs k = ?xs" using assms(2) by (simp add: slice_to_all)
  then have "rs = map (mk_point s) ?xs" using assms(1,3) by (simp add: search_spec)
  then have "map sp_id rs = map snd ?xs" by (simp only: id_mk_point)
  then have "set (map sp_id rs) = set (map snd ?xs)" by simp
  also have "\<dots> = set (map snd (scores_spec s q))" by (simp add: sort_reverse_def)
  also have "\<dots> = fst ` set (doc_tokens s)" by (simp only: ids_scores set_map)
  finally show ?thesis by (simp only: set_map)
qed

lemma search_total: "store_inv s \<Longrightarrow> \<exists>rs. search s q k = Inr rs"
  by (simp add: search_spec)

lemma containing_zero:
  "(\<forall>(d, tf) \<in> set dts. t \<notin> fst ` set tf) \<Longrightarrow> containing dts t = 0"
  by (auto simp: containing_def filter_empty_conv)

lemma readd_tokens:
  assumes "add_all init (ops @ [(d, old, p1), (d, new, p2)]) = Inr s"
  shows "store_inv s \<and> (d, Counter (tokenize new)) \<in> set (doc_tokens s)"
proof -
  have i: "store_inv s" using assms by (rule built_inv)
  obtain s0 where s0: "add_all init ops = Inr s0"
    using add_all_total [OF inv_init] by blast
  then have i0: "store_inv s0" by (rule built_inv)
  obtain sa where sa: "add s0 d old p1 = Inr sa" using add_total [OF i0] by blast
  have ia: "store_inv sa" using i0 sa by (rule inv_add)
  obtain s' where s': "add sa d new p2 = Inr s'" using add_total [OF ia] by blast
  have "add_all init (ops @ [(d, old, p1), (d, new, p2)]) = Inr s'"
    using s0 sa s' by (simp add: add_all_append)
  then have "Inr s' = (Inr s :: py_error + kstore)" using assms by (rule trans [OF sym])
  then have e: "s' = s" by (rule Inr_inject)
  have "doc_tokens s' = AList.update d (Counter (tokenize new)) (doc_tokens sa)"
    using ia s' by (rule add_doc_tokens)
  then have "map_of (doc_tokens s') d = Some (Counter (tokenize new))"
    by (simp add: update_conv')
  then have "(d, Counter (tokenize new)) \<in> set (doc_tokens s')" by (rule map_of_SomeD)
  then show ?thesis using i unfolding e by (rule conjI [rotated])
qed

lemma no_term_df:
  assumes "store_inv s" and "(d, tf) \<in> set (doc_tokens s)" and "t \<notin> fst ` set tf"
    and "\<forall>(d', tf') \<in> set (doc_tokens s). d' \<noteq> d \<longrightarrow> t \<notin> fst ` set tf'"
  shows "term_df s t = None"
proof -
  have "\<forall>(d', tf') \<in> set (doc_tokens s). t \<notin> fst ` set tf'"
  proof (intro ballI)
    fix x assume x: "x \<in> set (doc_tokens s)"
    obtain d' tf' where xe: "x = (d', tf')" by (cases x)
    have "t \<notin> fst ` set tf'"
    proof (cases "d' = d")
      case True
      have "tf' = tf" using assms(1) x assms(2) unfolding xe True by (rule stored_tf_unique)
      then show ?thesis using assms(3) by simp
    next
      case False
      then show ?thesis using assms(4) x xe by auto
    qed
    then show "case x of (d', tf') \<Rightarrow> t \<notin> fst ` set tf'" using xe by simp
  qed
  then have "containing (doc_tokens s) t = 0" by (rule containing_zero)
  then show ?thesis using assms(1) by (simp add: store_inv_def)
qed

section \<open>Properties of \<^verbatim>\<open>search\<close> and \<^verbatim>\<open>add\<close>\<close>

text \<open>
  C1, as far as it holds.  On an index built by \<^verbatim>\<open>add\<close> calls, \<^verbatim>\<open>search\<close> with
  \<open>top_k \<le> 0\<close> raises nothing, and its result is empty exactly when \<open>top_k = 0\<close> or the
  index holds at most \<open>- top_k\<close> documents: the slice \<^verbatim>\<open>scores[:top_k]\<close> with a negative
  bound drops the last \<open>- top_k\<close> entries of the ranking and keeps the others.
\<close>

theorem search_top_k_nonpositive:
  assumes "add_all init ops = Inr s" and "top_k \<le> 0"
  shows "\<exists>rs. search s q top_k = Inr rs \<and>
           (rs = [] \<longleftrightarrow> top_k = 0 \<or> int (length (docs s)) \<le> - top_k)"
proof -
  have i: "store_inv s" using assms(1) by (rule built_inv)
  let ?xs = "sort_reverse (scores_spec s q)"
  have "length ?xs = length (docs s)" using i by (simp add: length_ranked inv_length)
  then have "slice_to ?xs top_k = [] \<longleftrightarrow> top_k = 0 \<or> int (length (docs s)) \<le> - top_k"
    using assms(2) slice_to_Nil_iff [of top_k ?xs] by simp
  then show ?thesis using i by (simp add: search_spec)
qed

theorem search_top_k_nonpositive_witness:
  "add_all init [(''d1'', ''a'', Map.empty), (''d2'', ''a'', Map.empty)] = Inr two_docs \<and>
   (0::int) \<le> 0 \<and> search two_docs ''a'' 0 = Inr [] \<and>
   (- 2::int) \<le> 0 \<and> search two_docs ''a'' (- 2) = Inr []"
proof -
  have l: "length (docs two_docs) = 2" by (simp add: two_docs_def)
  have "search two_docs ''a'' 0 = Inr []"
    using search_top_k_nonpositive [OF two_docs_built, of 0 "''a''"] by auto
  moreover have "search two_docs ''a'' (- 2) = Inr []"
    using search_top_k_nonpositive [OF two_docs_built, of "- 2" "''a''"] l by auto
  ultimately show ?thesis using two_docs_built by simp
qed

text \<open>
  C1 as stated fails for a negative \<open>top_k\<close>: with two documents stored,
  \<^verbatim>\<open>search("a", -1)\<close> returns one result.
\<close>

theorem search_negative_top_k_counterexample:
  "add_all init [(''d1'', ''a'', Map.empty), (''d2'', ''a'', Map.empty)] = Inr two_docs \<and>
   search two_docs ''a'' (- 1) =
     Inr [\<lparr>sp_id = ''d2'', sp_score = 1, sp_payload = [''text'' \<mapsto> ''a'']\<rparr>]"
  using two_docs_built two_docs_search_neg by simp

text \<open>
  C10.  On an index built by \<^verbatim>\<open>add\<close> calls, \<^verbatim>\<open>search\<close> with a positive \<open>top_k\<close>
  returns exactly \<open>min top_k N\<close> results, where \<open>N\<close> is the number of stored documents:
  they are the first \<open>top_k\<close> entries of the full ranking, and the full ranking lists
  every stored document, whatever its score.
\<close>

theorem search_length:
  assumes "add_all init ops = Inr s" and "0 < top_k"
  shows "\<exists>rs ranked.
           search s q top_k = Inr rs \<and>
           length rs = min (nat top_k) (nat (N s)) \<and>
           N s = int (length (docs s)) \<and>
           search s q (N s) = Inr ranked \<and>
           set (map sp_id ranked) = fst ` set (docs s) \<and>
           rs = take (nat top_k) ranked"
proof -
  have i: "store_inv s" using assms(1) by (rule built_inv)
  let ?xs = "sort_reverse (scores_spec s q)"
  have n: "N s = int (length (docs s))" using i by (simp add: store_inv_def)
  have len: "length ?xs = length (docs s)" using i by (simp add: length_ranked inv_length)
  have k: "slice_to ?xs top_k = take (nat top_k) ?xs"
    using assms(2) by (simp add: slice_to_take)
  have all: "slice_to ?xs (N s) = ?xs" using n len by (simp add: slice_to_all)
  have "set (map sp_id (map (mk_point s) ?xs)) = set (map snd ?xs)"
    by (simp only: id_mk_point)
  also have "\<dots> = set (map snd (scores_spec s q))"
    by (simp add: sort_reverse_def)
  also have "\<dots> = fst ` set (doc_tokens s)" by (simp only: ids_scores set_map)
  also have "\<dots> = fst ` set (docs s)" using i by (rule inv_key_set [symmetric])
  finally have ids: "set (map sp_id (map (mk_point s) ?xs)) = fst ` set (docs s)" .
  have "search s q top_k = Inr (take (nat top_k) (map (mk_point s) ?xs))"
    using i k by (simp add: search_spec take_map)
  moreover have "search s q (N s) = Inr (map (mk_point s) ?xs)"
    using i all by (simp add: search_spec)
  moreover have "length (take (nat top_k) (map (mk_point s) ?xs)) = min (nat top_k) (nat (N s))"
    using len n by simp
  ultimately show ?thesis using n ids by blast
qed

theorem search_length_witness:
  "add_all init [(''d1'', ''a'', Map.empty), (''d2'', ''a'', Map.empty)] = Inr two_docs \<and>
   (0::int) < 1 \<and> N two_docs = 2 \<and>
   (\<exists>rs. search two_docs ''a'' 1 = Inr rs \<and> length rs = 1)"
  using search_length [OF two_docs_built, of 1 "''a''"] two_docs_built
  by (auto simp: two_docs_def)

text \<open>
  C4.  On an index built by \<^verbatim>\<open>add\<close> calls, the results of \<^verbatim>\<open>search\<close> are in
  descending order of score, and of two results with the same score the one with the
  greater document id (strings compared lexicographically) comes first.  The order is
  strict, so the ranking is determined by the scores and the ids alone.
\<close>

theorem search_sorted:
  assumes "add_all init ops = Inr s"
  shows "\<exists>rs. search s q top_k = Inr rs \<and>
           sorted_wrt (\<lambda>a b. sp_score b < sp_score a \<or>
                              (sp_score a = sp_score b \<and> sp_id b < sp_id a)) rs"
proof -
  have i: "store_inv s" using assms by (rule built_inv)
  let ?ys = "slice_to (sort_reverse (scores_spec s q)) top_k"
  have "sorted_wrt (\<lambda>x y. y < x) ?ys"
    using distinct_scores [OF i] by (rule ranked_strict)
  then have "sorted_wrt (\<lambda>x y. fst y < fst x \<or> (fst x = fst y \<and> snd y < snd x)) ?ys"
    by (rule sorted_wrt_mono_rel [rotated]) (auto simp: less_prod_def)
  then have "sorted_wrt (\<lambda>a b. sp_score b < sp_score a \<or>
                              (sp_score a = sp_score b \<and> sp_id b < sp_id a))
       (map (mk_point s) ?ys)"
    by (simp add: sorted_wrt_map mk_point_def case_prod_beta)
  then show ?thesis using i by (simp add: search_spec)
qed

theorem search_sorted_witness:
  "add_all init [(''d1'', ''a'', Map.empty), (''d2'', ''a'', Map.empty)] = Inr two_docs \<and>
   search two_docs ''a'' 3 =
     Inr [\<lparr>sp_id = ''d2'', sp_score = 1, sp_payload = [''text'' \<mapsto> ''a'']\<rparr>,
          \<lparr>sp_id = ''d1'', sp_score = 1, sp_payload = [''text'' \<mapsto> ''a'']\<rparr>] \<and>
   sorted_wrt (\<lambda>a b. sp_score b < sp_score a \<or>
                      (sp_score a = sp_score b \<and> sp_id b < sp_id a))
     [\<lparr>sp_id = ''d2'', sp_score = 1, sp_payload = [''text'' \<mapsto> ''a'']\<rparr>,
      \<lparr>sp_id = ''d1'', sp_score = 1, sp_payload = [''text'' \<mapsto> ''a'']\<rparr>]"
  using search_sorted [OF two_docs_built, of "''a''" 3] two_docs_built
  by (simp add: two_docs_search_all)

text \<open>
  C3.  After any sequence of \<^verbatim>\<open>add\<close> calls, every counter present in \<^verbatim>\<open>term_df\<close>
  is strictly positive and equals the number of stored documents whose term table
  contains the term, and \<open>N\<close> is the number of stored documents (the ids in \<^verbatim>\<open>docs\<close>
  are distinct and are those of \<^verbatim>\<open>doc_tokens\<close>).
\<close>

theorem df_invariant:
  assumes "add_all init ops = Inr s"
  shows "(\<forall>t c. term_df s t = Some c \<longrightarrow> 0 < c \<and> c = int (containing (doc_tokens s) t)) \<and>
         N s = int (length (docs s)) \<and>
         distinct (map fst (docs s)) \<and>
         map fst (doc_tokens s) = map fst (docs s)"
proof -
  have i: "store_inv s" using assms by (rule built_inv)
  have "\<forall>t c. term_df s t = Some c \<longrightarrow> 0 < c \<and> c = int (containing (doc_tokens s) t)"
  proof (intro allI impI)
    fix t c assume c: "term_df s t = Some c"
    have "term_df s t =
        (if containing (doc_tokens s) t = 0 then None
         else Some (int (containing (doc_tokens s) t)))"
      using i by (simp add: store_inv_def)
    with c show "0 < c \<and> c = int (containing (doc_tokens s) t)"
      by (auto split: if_splits)
  qed
  moreover have "N s = int (length (docs s))" using i by (simp add: store_inv_def)
  moreover have "map fst (doc_tokens s) = map fst (docs s)"
    using i by (simp add: inv_same_keys)
  moreover have "distinct (map fst (docs s))" using i by (simp add: store_inv_def)
  ultimately show ?thesis by simp
qed

theorem df_invariant_witness:
  "add_all init [(''d1'', ''a'', Map.empty), (''d2'', ''a'', Map.empty)] = Inr two_docs \<and>
   term_df two_docs ''a'' = Some 2 \<and>
   (2::int) = int (containing (doc_tokens two_docs) ''a'') \<and>
   N two_docs = int (length (docs two_docs))"
proof -
  have "term_df two_docs ''a'' = Some 2" by (simp add: two_docs_def)
  then show ?thesis
    using df_invariant [OF two_docs_built] two_docs_built by simp
qed

text \<open>
  C9.  \<^verbatim>\<open>add_document(doc_id, text, metadata)\<close> in keyword mode succeeds, and the
  payload it stores for \<open>doc_id\<close> maps \<^verbatim>\<open>"text"\<close> to the text passed, also when the
  metadata has a \<^verbatim>\<open>"text"\<close> key of its own; every other key of the payload is as in the
  metadata.
\<close>

theorem add_document_payload:
  assumes "add_all init ops = Inr s"
  shows "\<exists>s' pl. add_document s doc_id text metadata = Inr s' \<and>
           map_of (docs s') doc_id = Some pl \<and>
           pl ''text'' = Some text \<and>
           (\<forall>k. k \<noteq> ''text'' \<longrightarrow> pl k = metadata k)"
proof -
  have i: "store_inv s" using assms by (rule built_inv)
  let ?pl = "([''text'' \<mapsto> text] ++ metadata) ++ [''text'' \<mapsto> text]"
  obtain s' where s': "add s doc_id text ([''text'' \<mapsto> text] ++ metadata) = Inr s'"
    using add_total [OF i] by blast
  have "docs s' = AList.update doc_id ?pl (docs s)"
    using i s' by (rule add_docs)
  then have a: "map_of (docs s') doc_id = Some ?pl" by (simp add: update_conv')
  have b: "?pl ''text'' = Some text" by simp
  have c: "\<forall>k. k \<noteq> ''text'' \<longrightarrow> ?pl k = metadata k"
    by (simp add: map_add_def split: option.splits)
  have d: "add_document s doc_id text metadata = Inr s'"
    using s' by (simp only: add_document_def)
  show ?thesis
    by (rule exI [of _ s'], rule exI [of _ ?pl], intro conjI) (rule d, rule a, rule b, rule c)
qed

theorem add_document_payload_witness:
  "add_all init [] = Inr init \<and>
   (\<exists>s' pl. add_document init ''d1'' ''hello'' [''text'' \<mapsto> ''spoof'', ''lang'' \<mapsto> ''en''] = Inr s' \<and>
      map_of (docs s') ''d1'' = Some pl \<and>
      pl ''text'' = Some ''hello'' \<and>
      pl ''lang'' = Some ''en'')"
proof -
  have b: "add_all init [] = Inr init" by simp
  from add_document_payload [OF b, of "''d1''" "''hello''" "[''text'' \<mapsto> ''spoof'', ''lang'' \<mapsto> ''en'']"]
  obtain s' pl where
    "add_document init ''d1'' ''hello'' [''text'' \<mapsto> ''spoof'', ''lang'' \<mapsto> ''en''] = Inr s'"
    "map_of (docs s') ''d1'' = Some pl" "pl ''text'' = Some ''hello''"
    "\<forall>k. k \<noteq> ''text'' \<longrightarrow> pl k = [''text'' \<mapsto> ''spoof'', ''lang'' \<mapsto> ''en''] k"
    by blast
  moreover from this(4) have "pl ''lang'' = Some ''en''" by simp
  ultimately show ?thesis using b by blast
qed

text \<open>
  C7.  After any run of \<^verbatim>\<open>add\<close> calls, adding a document \<open>a\<close> and then a document \<open>b\<close>
  with a different id succeeds and leaves the same \<^verbatim>\<open>term_df\<close>, the same \<open>N\<close> and, for
  every query and every \<open>top_k\<close>, the same answer of \<^verbatim>\<open>search\<close> (ids, scores,
  payloads, order) as adding \<open>b\<close> and then \<open>a\<close>.
\<close>

theorem add_order_independent:
  assumes "a \<noteq> b"
  shows "\<exists>s1 s2.
           add_all init (ops @ [(a, ta, pa), (b, tb, pb)]) = Inr s1 \<and>
           add_all init (ops @ [(b, tb, pb), (a, ta, pa)]) = Inr s2 \<and>
           term_df s1 = term_df s2 \<and> N s1 = N s2 \<and>
           (\<forall>q k. search s1 q k = search s2 q k)"
proof -
  obtain s where s: "add_all init ops = Inr s"
    using add_all_total [OF inv_init] by blast
  then have i: "store_inv s" by (rule built_inv)
  from add_two [OF i, of a ta pa b tb pb] obtain sa s1 where
    ab: "add s a ta pa = Inr sa" "add sa b tb pb = Inr s1" "store_inv s1"
    and t1: "doc_tokens s1 =
       AList.update b (Counter (tokenize tb)) (AList.update a (Counter (tokenize ta)) (doc_tokens s))"
    and d1: "docs s1 =
       AList.update b (pb ++ [''text'' \<mapsto> tb]) (AList.update a (pa ++ [''text'' \<mapsto> ta]) (docs s))"
    by blast
  from add_two [OF i, of b tb pb a ta pa] obtain sb s2 where
    ba: "add s b tb pb = Inr sb" "add sb a ta pa = Inr s2" "store_inv s2"
    and t2: "doc_tokens s2 =
       AList.update a (Counter (tokenize ta)) (AList.update b (Counter (tokenize tb)) (doc_tokens s))"
    and d2: "docs s2 =
       AList.update a (pa ++ [''text'' \<mapsto> ta]) (AList.update b (pb ++ [''text'' \<mapsto> tb]) (docs s))"
    by blast
  have r1: "add_all init (ops @ [(a, ta, pa), (b, tb, pb)]) = Inr s1"
    using s ab(1,2) by (simp add: add_all_append)
  have r2: "add_all init (ops @ [(b, tb, pb), (a, ta, pa)]) = Inr s2"
    using s ba(1,2) by (simp add: add_all_append)
  have m: "mset (doc_tokens s1) = mset (doc_tokens s2)"
    unfolding t1 t2 using assms by (simp add: update_commute_mset)
  have p: "map_of (docs s1) = map_of (docs s2)"
    unfolding d1 d2 using assms by (simp add: update_commute_map)
  have df: "term_df s1 = term_df s2" using ab(3) ba(3) m by (rule inv_term_df_mset)
  have n: "N s1 = N s2" using ab(3) ba(3) m by (rule inv_N_mset)
  have se: "\<forall>q k. search s1 q k = search s2 q k"
    using search_cong [OF ab(3) ba(3) m p] by simp
  show ?thesis
    by (rule exI [of _ s1], rule exI [of _ s2], intro conjI) (rule r1, rule r2, rule df, rule n, rule se)
qed

theorem add_order_independent_witness:
  "''d1'' \<noteq> ''d2'' \<and>
   (\<exists>s1 s2.
      add_all init ([] @ [(''d1'', ''a'', Map.empty), (''d2'', ''b'', Map.empty)]) = Inr s1 \<and>
      add_all init ([] @ [(''d2'', ''b'', Map.empty), (''d1'', ''a'', Map.empty)]) = Inr s2 \<and>
      term_df s1 = term_df s2 \<and> N s1 = N s2 \<and>
      (\<forall>q k. search s1 q k = search s2 q k))"
proof -
  have ne: "''d1'' \<noteq> ''d2''" by simp
  show ?thesis
    using add_order_independent [OF ne, of "[]" "''a''" Map.empty "''b''" Map.empty] ne
    by (rule conjI [rotated])
qed

text \<open>
  C5.  On an index built by \<^verbatim>\<open>add\<close> calls, \<^verbatim>\<open>_tfidf_vec\<close> applied to the term
  counter of a query or to the stored term counter of a document raises nothing (no
  division by zero, no logarithm out of its domain) and returns the vector that gives a
  term \<open>t\<close> of frequency \<open>f\<close> the weight \<open>f * (ln ((1 + N) / (1 + DF t)) + 1)\<close> and
  has no entry for a term with \<open>DF t = 0\<close> or when \<open>N = 0\<close>; \<open>DF\<close> and \<open>N\<close> are never
  negative, and no weight is negative.  Floats are read as reals.
\<close>

theorem tfidf_vec_weights:
  assumes "add_all init ops = Inr s"
    and "tf = Counter toks \<or> tf \<in> snd ` set (doc_tokens s)"
  shows "\<exists>v. tfidf_vec s tf = Inr v \<and>
           (\<forall>t. map_of v t =
              (case map_of tf t of
                 None \<Rightarrow> None
               | Some f \<Rightarrow>
                   if df_get (term_df s) t = 0 \<or> N s = 0 then None
                   else Some (real_of_int f *
                          (ln ((1 + real_of_int (N s)) / (1 + real_of_int (df_get (term_df s) t))) + 1)))) \<and>
           (\<forall>t. 0 \<le> df_get (term_df s) t) \<and> 0 \<le> N s \<and>
           (\<forall>(t, w) \<in> set v. 0 \<le> w)"
proof -
  have i: "store_inv s" using assms(1) by (rule built_inv)
  have wf: "distinct (map fst tf) \<and> (\<forall>(t, f) \<in> set tf. 0 < f)"
    using assms(2) Counter_wf inv_stored_tf [OF i] by blast
  have n0: "0 \<le> N s" using i by (rule inv_N_nonneg)
  have d0: "\<forall>t. 0 \<le> df_get (term_df s) t" using i by (simp add: inv_df_nonneg)
  have a: "tfidf_vec s tf = Inr (tfidf_spec s tf)"
    using i wf by (simp add: inv_tfidf_vec)
  have b: "\<forall>t. map_of (tfidf_spec s tf) t =
              (case map_of tf t of
                 None \<Rightarrow> None
               | Some f \<Rightarrow>
                   if df_get (term_df s) t = 0 \<or> N s = 0 then None
                   else Some (real_of_int f *
                          (ln ((1 + real_of_int (N s)) / (1 + real_of_int (df_get (term_df s) t))) + 1)))"
  proof
    fix t
    have "0 \<le> df_get (term_df s) t" using d0 by simp
    then have "(0 < df_get (term_df s) t \<and> 0 < N s) = (\<not> (df_get (term_df s) t = 0 \<or> N s = 0))"
      using n0 by auto
    then show "map_of (tfidf_spec s tf) t =
              (case map_of tf t of
                 None \<Rightarrow> None
               | Some f \<Rightarrow>
                   if df_get (term_df s) t = 0 \<or> N s = 0 then None
                   else Some (real_of_int f *
                          (ln ((1 + real_of_int (N s)) / (1 + real_of_int (df_get (term_df s) t))) + 1)))"
      using wf by (simp add: map_of_tfidf_spec weight_def split: option.splits)
  qed
  have c: "\<forall>(t, w) \<in> set (tfidf_spec s tf). 0 \<le> w"
    using i wf tfidf_spec_nonneg [of s tf] by blast
  show ?thesis
    by (rule exI [of _ "tfidf_spec s tf"], intro conjI) (rule a, rule b, rule d0, rule n0, rule c)
qed

theorem tfidf_vec_weights_witness:
  "add_all init [(''d1'', ''a'', Map.empty), (''d2'', ''a'', Map.empty)] = Inr two_docs \<and>
   (\<exists>v. tfidf_vec two_docs (Counter [''a'', ''a'', ''zzz'']) = Inr v \<and>
      map_of v ''a'' = Some 2 \<and> map_of v ''zzz'' = None)"
proof -
  have c: "Counter [''a'', ''a'', ''zzz''] = [(''a'', 2), (''zzz'', 1)]"
    by (simp add: Counter_def counter_get_def)
  from tfidf_vec_weights [OF two_docs_built, of "Counter [''a'', ''a'', ''zzz'']" "[''a'', ''a'', ''zzz'']"]
  obtain v where v: "tfidf_vec two_docs (Counter [''a'', ''a'', ''zzz'']) = Inr v"
    "\<forall>t. map_of v t =
        (case map_of (Counter [''a'', ''a'', ''zzz'']) t of
           None \<Rightarrow> None
         | Some f \<Rightarrow>
             if df_get (term_df two_docs) t = 0 \<or> N two_docs = 0 then None
             else Some (real_of_int f *
                    (ln ((1 + real_of_int (N two_docs)) /
                         (1 + real_of_int (df_get (term_df two_docs) t))) + 1)))"
    by blast
  have "map_of v ''a'' = Some 2"
    by (simp add: v(2) c) (simp add: two_docs_def df_get_def)
  moreover have "map_of v ''zzz'' = None"
    by (simp add: v(2) c) (simp add: two_docs_def df_get_def)
  ultimately show ?thesis using v(1) two_docs_built by blast
qed




text \<open>
  C2.  After any run of \<^verbatim>\<open>add\<close> calls, then \<^verbatim>\<open>add("d1", "alpha beta", _)\<close> and
  \<^verbatim>\<open>add("d1", "gamma", _)\<close>, a search for \<^verbatim>\<open>"alpha"\<close> raises nothing and finds no
  match in \<^verbatim>\<open>d1\<close>: every result for \<^verbatim>\<open>d1\<close> has the score 0.  (A document without a
  match is not left out of the ranking: \<^verbatim>\<open>d1\<close> is in the list when \<open>top_k\<close> is at least
  the number of stored documents.)  If no other stored document contains \<^verbatim>\<open>alpha\<close>,
  the term has no entry in \<^verbatim>\<open>term_df\<close>: nothing of the old text is left in the
  document frequencies.
\<close>

theorem update_retraction:
  assumes "add_all init (ops @ [(''d1'', ''alpha beta'', p1), (''d1'', ''gamma'', p2)]) = Inr s"
  shows "(\<exists>rs. search s ''alpha'' top_k = Inr rs \<and>
            (\<forall>r \<in> set rs. sp_id r = ''d1'' \<longrightarrow> sp_score r = 0) \<and>
            (N s \<le> top_k \<longrightarrow> ''d1'' \<in> sp_id ` set rs)) \<and>
         ((\<forall>(d, tf) \<in> set (doc_tokens s). d \<noteq> ''d1'' \<longrightarrow> ''alpha'' \<notin> fst ` set tf)
            \<longrightarrow> term_df s ''alpha'' = None)"
proof -
  have ig: "store_inv s \<and> (''d1'', Counter (tokenize ''gamma'')) \<in> set (doc_tokens s)"
    using assms by (rule readd_tokens)
  then have i: "store_inv s" by (rule conjunct1)
  have g: "(''d1'', Counter [''gamma'']) \<in> set (doc_tokens s)"
    using ig by (simp only: tok_gamma)
  have keys: "fst ` set (Counter [''gamma'']) = {''gamma''}" by (simp add: Counter_keys)
  have nk: "''alpha'' \<notin> fst ` set (Counter [''gamma''])" unfolding keys by simp
  obtain rs where rs: "search s ''alpha'' top_k = Inr rs" using search_total [OF i] by blast
  have a: "\<forall>r \<in> set rs. sp_id r = ''d1'' \<longrightarrow> sp_score r = 0"
  proof (intro ballI impI)
    fix r assume r: "r \<in> set rs" and d: "sp_id r = ''d1''"
    have m: "(sp_id r, Counter [''gamma'']) \<in> set (doc_tokens s)" using g unfolding d .
    have "set (tokenize ''alpha'') \<inter> fst ` set (Counter [''gamma'']) = {}"
      unfolding keys by (simp add: tok_alpha)
    with m show "sp_score r = 0" by (rule result_disjoint [OF i rs r])
  qed
  have b: "N s \<le> top_k \<longrightarrow> ''d1'' \<in> sp_id ` set rs"
  proof
    assume "N s \<le> top_k"
    with i have e: "sp_id ` set rs = fst ` set (doc_tokens s)" using rs by (rule search_all_ids)
    have "fst (''d1'', Counter [''gamma'']) \<in> fst ` set (doc_tokens s)"
      using g by (rule imageI)
    then show "''d1'' \<in> sp_id ` set rs" unfolding e by simp
  qed
  have c: "(\<forall>(d, tf) \<in> set (doc_tokens s). d \<noteq> ''d1'' \<longrightarrow> ''alpha'' \<notin> fst ` set tf)
            \<longrightarrow> term_df s ''alpha'' = None"
  proof
    assume "\<forall>(d, tf) \<in> set (doc_tokens s). d \<noteq> ''d1'' \<longrightarrow> ''alpha'' \<notin> fst ` set tf"
    with i g nk show "term_df s ''alpha'' = None" by (rule no_term_df)
  qed
  have "\<exists>rs. search s ''alpha'' top_k = Inr rs \<and>
            (\<forall>r \<in> set rs. sp_id r = ''d1'' \<longrightarrow> sp_score r = 0) \<and>
            (N s \<le> top_k \<longrightarrow> ''d1'' \<in> sp_id ` set rs)"
    by (rule exI [of _ rs], intro conjI) (rule rs, rule a, rule b)
  then show ?thesis using c by (rule conjI)
qed

theorem update_retraction_witness:
  "add_all init ([(''d0'', ''delta'', Map.empty)] @
      [(''d1'', ''alpha beta'', Map.empty), (''d1'', ''gamma'', Map.empty)]) = Inr delta_gamma \<and>
   (\<exists>rs. search delta_gamma ''alpha'' 3 = Inr rs \<and>
      (\<forall>r \<in> set rs. sp_id r = ''d1'' \<longrightarrow> sp_score r = 0) \<and>
      ''d1'' \<in> sp_id ` set rs) \<and>
   term_df delta_gamma ''alpha'' = None"
proof -
  have n: "N delta_gamma \<le> 3" by (simp add: delta_gamma_def)
  have o: "\<forall>(d, tf) \<in> set (doc_tokens delta_gamma). d \<noteq> ''d1'' \<longrightarrow> ''alpha'' \<notin> fst ` set tf"
    by (simp add: delta_gamma_def)
  note t = update_retraction [OF delta_gamma_built, of 3]
  from t have "\<exists>rs. search delta_gamma ''alpha'' 3 = Inr rs \<and>
            (\<forall>r \<in> set rs. sp_id r = ''d1'' \<longrightarrow> sp_score r = 0) \<and>
            (N delta_gamma \<le> 3 \<longrightarrow> ''d1'' \<in> sp_id ` set rs)"
    by (rule conjunct1)
  then obtain rs where rs: "search delta_gamma ''alpha'' 3 = Inr rs"
    and z: "\<forall>r \<in> set rs. sp_id r = ''d1'' \<longrightarrow> sp_score r = 0"
    and l: "N delta_gamma \<le> 3 \<longrightarrow> ''d1'' \<in> sp_id ` set rs"
    by (elim exE conjE)
  from l n have m: "''d1'' \<in> sp_id ` set rs" by (rule mp)
  have e: "\<exists>rs. search delta_gamma ''alpha'' 3 = Inr rs \<and>
      (\<forall>r \<in> set rs. sp_id r = ''d1'' \<longrightarrow> sp_score r = 0) \<and>
      ''d1'' \<in> sp_id ` set rs"
    by (rule exI [of _ rs], intro conjI) (rule rs, rule z, rule m)
  from t have "(\<forall>(d, tf) \<in> set (doc_tokens delta_gamma). d \<noteq> ''d1'' \<longrightarrow> ''alpha'' \<notin> fst ` set tf)
            \<longrightarrow> term_df delta_gamma ''alpha'' = None"
    by (rule conjunct2)
  then have f: "term_df delta_gamma ''alpha'' = None" using o by (rule mp)
  show ?thesis by (intro conjI) (rule delta_gamma_built, rule e, rule f)
qed

end
